theory Spec2Isabelle
  imports Main "HOL-Library.Multiset"
begin

section \<open>Go strings, runes and the library calls of the package\<close>

text \<open>
  A Go string is a sequence of bytes: \<^typ>\<open>string\<close> (a list of 8-bit \<^typ>\<open>char\<close>), and
  \<open>len\<close> is \<^const>\<open>length\<close>. The package's \<open>int\<close> is the 64-bit one; the fields
  of a version are never added or multiplied, only compared and printed, so they are
  \<^typ>\<open>int\<close>, and the one place that bounds them, \<open>strconv.Atoi\<close>, has the bound written out.
\<close>

type_synonym rune = int

definition RuneError :: rune where
  "RuneError = 0xFFFD"

definition maxInt :: int where
  "maxInt = 2 ^ 63 - 1"

definition minInt :: int where
  "minInt = - (2 ^ 63)"

definition isCont :: "char \<Rightarrow> bool" where
  "isCont b = (0x80 \<le> (of_char b :: int) \<and> (of_char b :: int) \<le> 0xBF)"

definition inRange :: "int \<Rightarrow> int \<Rightarrow> char \<Rightarrow> bool" where
  "inRange lo hi b = (lo \<le> (of_char b :: int) \<and> (of_char b :: int) \<le> hi)"

text \<open>
  \<open>utf8.DecodeRuneInString\<close>: the code point at the head of the string and its width
  in bytes; an ill-formed or truncated sequence is \<open>(RuneError, 1)\<close>. The accepted
  second-byte ranges are those of the library's table (no overlong forms, no
  surrogates, nothing above U+10FFFF).
\<close>

fun decodeRune :: "string \<Rightarrow> rune \<times> nat" where
  "decodeRune [] = (RuneError, 0)"
| "decodeRune (b0 # bs) =
     (let x = (of_char b0 :: int) in
      if x < 0x80 then (x, 1)
      else if 0xC2 \<le> x \<and> x \<le> 0xDF then
        (case bs of
           b1 # _ \<Rightarrow>
             if isCont b1 then ((x mod 32) * 64 + of_char b1 mod 64, 2) else (RuneError, 1)
         | _ \<Rightarrow> (RuneError, 1))
      else if 0xE0 \<le> x \<and> x \<le> 0xEF then
        (case bs of
           b1 # b2 # _ \<Rightarrow>
             if inRange (if x = 0xE0 then 0xA0 else 0x80) (if x = 0xED then 0x9F else 0xBF) b1
                \<and> isCont b2
             then ((x mod 16) * 4096 + (of_char b1 mod 64) * 64 + of_char b2 mod 64, 3)
             else (RuneError, 1)
         | _ \<Rightarrow> (RuneError, 1))
      else if 0xF0 \<le> x \<and> x \<le> 0xF4 then
        (case bs of
           b1 # b2 # b3 # _ \<Rightarrow>
             if inRange (if x = 0xF0 then 0x90 else 0x80) (if x = 0xF4 then 0x8F else 0xBF) b1
                \<and> isCont b2 \<and> isCont b3
             then ((x mod 8) * 262144 + (of_char b1 mod 64) * 4096
                   + (of_char b2 mod 64) * 64 + of_char b3 mod 64, 4)
             else (RuneError, 1)
         | _ \<Rightarrow> (RuneError, 1))
      else (RuneError, 1))"

text \<open>
  The runes that \<open>for _, c := range s\<close> yields, in order: each iteration decodes at the
  current byte offset and advances by the width (by one byte after an ill-formed
  sequence).
\<close>

fun runes :: "string \<Rightarrow> rune list" where
  "runes [] = []"
| "runes (b # bs) = fst (decodeRune (b # bs)) # runes (drop (snd (decodeRune (b # bs)) - 1) bs)"

text \<open>
  \<open>utf8.AppendRune\<close>, which \<open>strings.Builder.WriteRune\<close> calls: the UTF-8 bytes of a
  rune; a surrogate, a negative value or a value above U+10FFFF is written as U+FFFD.
\<close>

definition encodeRune :: "rune \<Rightarrow> string" where
  "encodeRune r =
     (if 0 \<le> r \<and> r < 0x80 then [char_of r]
      else if 0 \<le> r \<and> r < 0x800 then [char_of (0xC0 + r div 64), char_of (0x80 + r mod 64)]
      else if r < 0 \<or> r > 0x10FFFF \<or> (0xD800 \<le> r \<and> r \<le> 0xDFFF) then
        [char_of (0xEF :: int), char_of (0xBF :: int), char_of (0xBD :: int)]
      else if r < 0x10000 then
        [char_of (0xE0 + r div 4096), char_of (0x80 + (r div 64) mod 64),
         char_of (0x80 + r mod 64)]
      else
        [char_of (0xF0 + r div 262144), char_of (0x80 + (r div 4096) mod 64),
         char_of (0x80 + (r div 64) mod 64), char_of (0x80 + r mod 64)])"

definition isDigit :: "char \<Rightarrow> bool" where
  "isDigit c = (48 \<le> (of_char c :: int) \<and> (of_char c :: int) \<le> 57)"

text \<open>The accumulation \<open>n = n*10 + int(ch - '0')\<close> over the bytes of a digit string.\<close>

definition digitsVal :: "string \<Rightarrow> int" where
  "digitsVal ds = foldl (\<lambda>n ch. n * 10 + (of_char ch - 48)) 0 ds"

text \<open>
  \<open>strconv.Atoi\<close> on a 64-bit platform, \<open>None\<close> for a non-nil error: an optional sign
  \<open>+\<close> or \<open>-\<close>, then at least one byte, all of them ASCII digits (base 10 takes no
  underscore), and a value inside \<open>[-2^63, 2^63 - 1]\<close>. The fast path (fewer than 19
  bytes) and \<open>ParseInt\<close> agree on this.
\<close>

definition Atoi :: "string \<Rightarrow> int option" where
  "Atoi s =
     (case s of
        [] \<Rightarrow> None
      | c # cs \<Rightarrow>
          (let neg = (c = CHR ''-'');
               ds = (if c = CHR ''-'' \<or> c = CHR ''+'' then cs else s)
           in if ds \<noteq> [] \<and> list_all isDigit ds then
                (let v = (if neg then - digitsVal ds else digitsVal ds)
                 in if minInt \<le> v \<and> v \<le> maxInt then Some v else None)
              else None))"

text \<open>\<open>strings.Split(s, ".")\<close>: the pieces between the dots, empty pieces kept.\<close>

fun Split :: "string \<Rightarrow> string list" where
  "Split [] = [[]]"
| "Split (c # cs) =
     (if c = CHR ''.'' then [] # Split cs
      else (case Split cs of p # ps \<Rightarrow> (c # p) # ps | [] \<Rightarrow> [[c]]))"

text \<open>\<open>cmp.Compare\<close> on integers (and on lengths).\<close>

definition cmpCompare :: "int \<Rightarrow> int \<Rightarrow> int" where
  "cmpCompare x y = (if x < y then -1 else if x > y then 1 else 0)"

text \<open>\<open>cmp.Compare\<close> on strings: bytewise lexicographic order.\<close>

fun cmpCompareStr :: "string \<Rightarrow> string \<Rightarrow> int" where
  "cmpCompareStr [] [] = 0"
| "cmpCompareStr [] (b # bs) = -1"
| "cmpCompareStr (a # as) [] = 1"
| "cmpCompareStr (a # as) (b # bs) =
     (if (of_char a :: int) < of_char b then -1
      else if (of_char a :: int) > of_char b then 1
      else cmpCompareStr as bs)"

text \<open>The decimal rendering of an integer by \<open>fmt.Sprint\<close>.\<close>

function fmtDigits :: "int \<Rightarrow> string" where
  "fmtDigits n =
     (if n < 10 then [char_of (48 + n)] else fmtDigits (n div 10) @ [char_of (48 + n mod 10)])"
  by pat_completeness auto
termination
  by (relation "measure nat") auto

definition formatInt :: "int \<Rightarrow> string" where
  "formatInt i = (if i < 0 then CHR ''-'' # fmtDigits (- i) else fmtDigits i)"

section \<open>The version type and its methods\<close>

datatype error = ErrInvalidSemVerSyntax

record SemVer =
  Major :: int
  Minor :: int
  Patch :: int
  PreRelease :: string
  BuildMetadata :: string

definition IsPreRelease :: "SemVer \<Rightarrow> bool" where
  "IsPreRelease s = (length (PreRelease s) \<noteq> 0)"

text \<open>
  \<open>fmt.Sprint\<close> puts a space between two operands only when neither is a string; here
  every integer stands next to the string \<open>"."\<close>.
\<close>

definition String :: "SemVer \<Rightarrow> string" where
  "String s =
     formatInt (Major s) @ ''.'' @ formatInt (Minor s) @ ''.'' @ formatInt (Patch s)
     @ (if length (PreRelease s) \<noteq> 0 then ''-'' @ PreRelease s else [])
     @ (if length (BuildMetadata s) \<noteq> 0 then ''+'' @ BuildMetadata s else [])"

definition mayParseDigit :: "string \<Rightarrow> int option" where
  "mayParseDigit s = Atoi s"

text \<open>
  The loop of \<open>comparePreRelease\<close> over the positions both splits have; \<open>fin\<close> is
  the value returned after the loop.
\<close>

fun comparePreReleaseLoop :: "string list \<Rightarrow> string list \<Rightarrow> int \<Rightarrow> int" where
  "comparePreReleaseLoop (thisPart # ts) (otherPart # os) fin =
     (case (mayParseDigit thisPart, mayParseDigit otherPart) of
        (Some tDigit, Some oDigit) \<Rightarrow>
          if tDigit = oDigit then comparePreReleaseLoop ts os fin
          else cmpCompare tDigit oDigit
      | (Some tDigit, None) \<Rightarrow> -1
      | (None, Some oDigit) \<Rightarrow> 1
      | (None, None) \<Rightarrow>
          (let cmpResult = cmpCompareStr thisPart otherPart
           in if cmpResult = 0 then comparePreReleaseLoop ts os fin else cmpResult))"
| "comparePreReleaseLoop [] os fin = fin"
| "comparePreReleaseLoop ts [] fin = fin"

definition comparePreRelease :: "SemVer \<Rightarrow> SemVer \<Rightarrow> int" where
  "comparePreRelease s o' =
     (let thisLen = length (PreRelease s); otherLen = length (PreRelease o')
      in if thisLen = 0 \<or> otherLen = 0 then
           (if thisLen = 0 \<and> otherLen = 0 then 0
            else if thisLen = 0 then 1
            else -1)
         else comparePreReleaseLoop (Split (PreRelease s)) (Split (PreRelease o'))
                (cmpCompare (int thisLen) (int otherLen)))"

definition generateCompareToOtherResult :: "SemVer \<Rightarrow> SemVer \<Rightarrow> int list" where
  "generateCompareToOtherResult s o' =
     [cmpCompare (Major s) (Major o'), cmpCompare (Minor s) (Minor o'),
      cmpCompare (Patch s) (Patch o'), comparePreRelease s o']"

text \<open>
  The five result loops: the first non-zero entry decides, and each method has its own
  answer when every entry is zero.
\<close>

fun firstResult :: "(int \<Rightarrow> 'a) \<Rightarrow> 'a \<Rightarrow> int list \<Rightarrow> 'a" where
  "firstResult f d [] = d"
| "firstResult f d (result # rs) = (if result = 0 then firstResult f d rs else f result)"

definition IsGraterOrEquql :: "SemVer \<Rightarrow> SemVer \<Rightarrow> bool" where
  "IsGraterOrEquql s o' = firstResult (\<lambda>result. result > 0) True (generateCompareToOtherResult s o')"

definition IsGrater :: "SemVer \<Rightarrow> SemVer \<Rightarrow> bool" where
  "IsGrater s o' = firstResult (\<lambda>result. result > 0) False (generateCompareToOtherResult s o')"

definition IsLess :: "SemVer \<Rightarrow> SemVer \<Rightarrow> bool" where
  "IsLess s o' = firstResult (\<lambda>result. result < 0) False (generateCompareToOtherResult s o')"

definition IsLessOrEquql :: "SemVer \<Rightarrow> SemVer \<Rightarrow> bool" where
  "IsLessOrEquql s o' = firstResult (\<lambda>result. result < 0) True (generateCompareToOtherResult s o')"

definition IsEquql :: "SemVer \<Rightarrow> SemVer \<Rightarrow> bool" where
  "IsEquql s o' =
     (Major s = Major o' \<and> Minor s = Minor o' \<and> Patch s = Patch o'
      \<and> PreRelease s = PreRelease o')"

definition Compare :: "SemVer \<Rightarrow> SemVer \<Rightarrow> int" where
  "Compare s other = firstResult (\<lambda>result. result) 0 (generateCompareToOtherResult s other)"

section \<open>The parser\<close>

record scanState =
  parts :: "string list"
  partIndex :: nat
  didEnterPreReleasePart :: bool
  didEnterBuildMetadataPart :: bool

definition initState :: scanState where
  "initState =
     \<lparr>parts = replicate 5 [], partIndex = 0,
      didEnterPreReleasePart = False, didEnterBuildMetadataPart = False\<rparr>"

text \<open>
  One iteration of the scan. \<open>None\<close> is the run-time panic of an index outside the
  \<open>parts\<close> slice.
\<close>

definition scanStep :: "scanState \<Rightarrow> rune \<Rightarrow> scanState option" where
  "scanStep st c =
     (if c = of_char CHR ''.'' \<and> partIndex st < 2 then
        Some (st\<lparr>partIndex := partIndex st + 1\<rparr>)
      else if c = of_char CHR ''-'' \<and> \<not> didEnterPreReleasePart st
              \<and> \<not> didEnterBuildMetadataPart st then
        Some (st\<lparr>didEnterPreReleasePart := True, partIndex := 3\<rparr>)
      else if c = of_char CHR ''+'' \<and> \<not> didEnterBuildMetadataPart st then
        Some (st\<lparr>didEnterBuildMetadataPart := True, partIndex := 4\<rparr>)
      else if partIndex st < length (parts st) then
        Some (st\<lparr>parts := (parts st)[partIndex st := parts st ! partIndex st @ encodeRune c]\<rparr>)
      else None)"

fun scanLoop :: "scanState \<Rightarrow> rune list \<Rightarrow> scanState option" where
  "scanLoop st [] = Some st"
| "scanLoop st (c # cs) =
     (case scanStep st c of None \<Rightarrow> None | Some st' \<Rightarrow> scanLoop st' cs)"

definition scan :: "string \<Rightarrow> scanState option" where
  "scan semverStr = scanLoop initState (runes semverStr)"

definition zeroSemVer :: SemVer where
  "zeroSemVer = \<lparr>Major = 0, Minor = 0, Patch = 0, PreRelease = [], BuildMetadata = []\<rparr>"

text \<open>
  The conversions after the scan. As in Go the result is a pair: on an error the
  version returned is the partly filled one.
\<close>

definition convert :: "string list \<Rightarrow> SemVer \<times> error option" where
  "convert ps =
     (case Atoi (ps ! 0) of
        None \<Rightarrow> (zeroSemVer, Some ErrInvalidSemVerSyntax)
      | Some major \<Rightarrow>
          (case Atoi (ps ! 1) of
             None \<Rightarrow> (zeroSemVer\<lparr>Major := major\<rparr>, Some ErrInvalidSemVerSyntax)
           | Some minor \<Rightarrow>
               (case Atoi (ps ! 2) of
                  None \<Rightarrow> (zeroSemVer\<lparr>Major := major, Minor := minor\<rparr>, Some ErrInvalidSemVerSyntax)
                | Some patch \<Rightarrow>
                    (\<lparr>Major = major, Minor = minor, Patch = patch,
                      PreRelease = ps ! 3, BuildMetadata = ps ! 4\<rparr>, None))))"

definition Parse :: "string \<Rightarrow> (SemVer \<times> error option) option" where
  "Parse semverStr =
     (case scan semverStr of None \<Rightarrow> None | Some st \<Rightarrow> Some (convert (parts st)))"

definition IsValid :: "string \<Rightarrow> bool" where
  "IsValid v = (case Parse v of Some (_, None) \<Rightarrow> True | _ \<Rightarrow> False)"

section \<open>Sorting\<close>

text \<open>
  \<open>semverSlice\<close> implements \<open>sort.Interface\<close>: \<open>Less(i, j)\<close> is
  \<open>sv[i].IsLessOrEquql(sv[j])\<close> and \<open>Swap\<close> exchanges two slots.
\<close>

definition Less :: "SemVer list \<Rightarrow> nat \<Rightarrow> nat \<Rightarrow> bool" where
  "Less sv i j = IsLessOrEquql (sv ! i) (sv ! j)"

definition Swap :: "'a list \<Rightarrow> nat \<Rightarrow> nat \<Rightarrow> 'a list" where
  "Swap sv i j = sv[i := sv ! j, j := sv ! i]"

text \<open>
  The library's \<open>insertionSort(data, a, b)\<close>, with the interface's \<open>Less\<close> as a
  parameter: the inner loop \<open>for j := i; j > a && data.Less(j, j-1); j--\<close> and the
  outer loop \<open>for i := a + 1; i < b; i++\<close>. Both keep every index inside \<open>[a, b)\<close>.
\<close>

fun insertionInner :: "('a list \<Rightarrow> nat \<Rightarrow> nat \<Rightarrow> bool) \<Rightarrow> 'a list \<Rightarrow> nat \<Rightarrow> nat \<Rightarrow> 'a list" where
  "insertionInner lessFn data a j =
     (if j > a \<and> lessFn data j (j - 1) then insertionInner lessFn (Swap data j (j - 1)) a (j - 1)
      else data)"

function insertionOuter :: "('a list \<Rightarrow> nat \<Rightarrow> nat \<Rightarrow> bool) \<Rightarrow> 'a list \<Rightarrow> nat \<Rightarrow> nat \<Rightarrow> nat \<Rightarrow> 'a list" where
  "insertionOuter lessFn data a i b =
     (if i < b then insertionOuter lessFn (insertionInner lessFn data a i) a (i + 1) b else data)"
  by pat_completeness auto
termination
  by (relation "measure (\<lambda>(lessFn, data, a, i, b). b - i)") auto

definition insertionSort :: "('a list \<Rightarrow> nat \<Rightarrow> nat \<Rightarrow> bool) \<Rightarrow> 'a list \<Rightarrow> nat \<Rightarrow> nat \<Rightarrow> 'a list" where
  "insertionSort lessFn data a b = insertionOuter lessFn data a (a + 1) b"

text \<open>
  \<open>sort.Sort\<close>: nothing to do for at most one element; otherwise \<open>pdqsort\<close>, which
  for a range of at most \<open>maxInsertion = 12\<close> elements is exactly \<open>insertionSort\<close>.
  The partitioning path for longer slices is outside this model: \<open>None\<close>.
\<close>

definition sortSort :: "('a list \<Rightarrow> nat \<Rightarrow> nat \<Rightarrow> bool) \<Rightarrow> 'a list \<Rightarrow> 'a list option" where
  "sortSort lessFn data =
     (let n = length data in
      if n \<le> 1 then Some data
      else if n \<le> 12 then Some (insertionSort lessFn data 0 n)
      else None)"

definition Sort :: "SemVer list \<Rightarrow> SemVer list option" where
  "Sort slice = sortSort Less slice"

text \<open>
  The first loop of \<open>SortStr\<close>: parse every string, stopping at the first error.
  The outer \<open>None\<close> is a panic inside \<open>Parse\<close>.
\<close>

fun parseEach :: "string list \<Rightarrow> (error + SemVer list) option" where
  "parseEach [] = Some (Inr [])"
| "parseEach (s # ss) =
     (case Parse s of
        None \<Rightarrow> None
      | Some (v, Some err) \<Rightarrow> Some (Inl err)
      | Some (v, None) \<Rightarrow>
          (case parseEach ss of
             None \<Rightarrow> None
           | Some (Inl err) \<Rightarrow> Some (Inl err)
           | Some (Inr vs) \<Rightarrow> Some (Inr (v # vs))))"

text \<open>
  \<open>SortStr\<close> returns the slice as it leaves it, with the error: untouched when a
  string does not parse, every slot rewritten with \<open>m[i].String()\<close> otherwise.
\<close>

definition SortStr :: "string list \<Rightarrow> (string list \<times> error option) option" where
  "SortStr slice =
     (case parseEach slice of
        None \<Rightarrow> None
      | Some (Inl err) \<Rightarrow> Some (slice, Some err)
      | Some (Inr m) \<Rightarrow>
          (case sortSort Less m of
             None \<Rightarrow> None
           | Some m' \<Rightarrow> Some (map String m', None)))"

section \<open>Inputs named by the specification\<close>

text \<open>The struct literal \<open>SemVer{Major: .., Minor: .., Patch: .., PreRelease: .., BuildMetadata: ..}\<close>.\<close>

definition semVer :: "int \<Rightarrow> int \<Rightarrow> int \<Rightarrow> string \<Rightarrow> string \<Rightarrow> SemVer" where
  "semVer ma mi pa pre build =
     \<lparr>Major = ma, Minor = mi, Patch = pa, PreRelease = pre, BuildMetadata = build\<rparr>"

definition precedenceChain :: "string list" where
  "precedenceChain =
     [''1.0.0-alpha'', ''1.0.0-alpha.1'', ''1.0.0-alpha.beta'', ''1.0.0-beta'',
      ''1.0.0-beta.2'', ''1.0.0-beta.11'', ''1.0.0-rc.1'', ''1.0.0'']"

definition precedenceChainVersions :: "SemVer list" where
  "precedenceChainVersions =
     [semVer 1 0 0 ''alpha'' [], semVer 1 0 0 ''alpha.1'' [], semVer 1 0 0 ''alpha.beta'' [],
      semVer 1 0 0 ''beta'' [], semVer 1 0 0 ''beta.2'' [], semVer 1 0 0 ''beta.11'' [],
      semVer 1 0 0 ''rc.1'' [], semVer 1 0 0 [] []]"

definition sortScenario :: "string list" where
  "sortScenario =
     [''1.0.0-alpha'', ''1.0.0-alpha.1'', ''1.0.0-beta'', ''1.0.0-beta.11'', ''1.0.0'', ''2.0.0'']"

definition sortScenarioVersions :: "SemVer list" where
  "sortScenarioVersions =
     [semVer 1 0 0 ''alpha'' [], semVer 1 0 0 ''alpha.1'' [], semVer 1 0 0 ''beta'' [],
      semVer 1 0 0 ''beta.11'' [], semVer 1 0 0 [] [], semVer 2 0 0 [] []]"

section \<open>Predicates used in the statements\<close>

text \<open>A text without the sign bytes that \<open>strconv.Atoi\<close> accepts in front of the digits.\<close>

definition noSign :: "string \<Rightarrow> bool" where
  "noSign t = (CHR ''-'' \<notin> set t \<and> CHR ''+'' \<notin> set t)"

text \<open>
  What every state of the scan satisfies: five parts, the cursor inside them, no flag set
  while the cursor is on a numeric field, and no sign byte in the numeric texts.
\<close>

definition scanInv :: "scanState \<Rightarrow> bool" where
  "scanInv st =
     (length (parts st) = 5 \<and> partIndex st \<le> 4
      \<and> (partIndex st \<le> 2 \<longrightarrow> \<not> didEnterPreReleasePart st \<and> \<not> didEnterBuildMetadataPart st)
      \<and> noSign (parts st ! 0) \<and> noSign (parts st ! 1) \<and> noSign (parts st ! 2))"

text \<open>A numeric field text as the specification wants it: not empty, ASCII digits only.\<close>

definition numericText :: "string \<Rightarrow> bool" where
  "numericText t = (t \<noteq> [] \<and> list_all isDigit t)"

text \<open>A numeric field text that \<open>strconv.Atoi\<close> converts: digits only, and inside the range of \<open>int\<close>.\<close>

definition fieldOk :: "string \<Rightarrow> bool" where
  "fieldOk t = (numericText t \<and> digitsVal t \<le> maxInt)"

text \<open>The inputs the specification lists as invalid.\<close>

definition rejected :: "string list" where
  "rejected = [''1..0'', ''1.0'', ''1.0-b'', ''1b.0.0'']"

text \<open>A byte below \<open>0x80\<close>: a rune of its own in UTF-8.\<close>

definition isAscii :: "char \<Rightarrow> bool" where
  "isAscii c = ((of_char c :: int) < 128)"

text \<open>
  A numeric field of a well-formed input: a decimal numeral as \<open>fmt.Sprint\<close> prints
  it, digits only and without a leading zero (the text \<open>0\<close> apart). Leading zeros are
  the looseness of the grammar that the specification sets aside.
\<close>

definition plainNumeral :: "string \<Rightarrow> bool" where
  "plainNumeral t = (numericText t \<and> (t = ''0'' \<or> hd t \<noteq> CHR ''0''))"

text \<open>A numeric field of a well-formed input whose value fits an \<open>int\<close>.\<close>

definition canonical :: "string \<Rightarrow> bool" where
  "canonical t = (plainNumeral t \<and> digitsVal t \<le> maxInt)"

text \<open>The bytes of an identifier: ASCII letters, digits and the hyphen.\<close>

definition identChar :: "char \<Rightarrow> bool" where
  "identChar c =
     (isDigit c \<or> (65 \<le> (of_char c :: int) \<and> (of_char c :: int) \<le> 90)
      \<or> (97 \<le> (of_char c :: int) \<and> (of_char c :: int) \<le> 122) \<or> c = CHR ''-'')"

text \<open>A dot-separated list of non-empty identifiers.\<close>

definition identifiers :: "string \<Rightarrow> bool" where
  "identifiers t = list_all (\<lambda>i. i \<noteq> [] \<and> list_all identChar i) (Split t)"

text \<open>An optional pre-release or build-metadata text of the grammar.\<close>

definition optIdentifiers :: "string option \<Rightarrow> bool" where
  "optIdentifiers x = (case x of None \<Rightarrow> True | Some t \<Rightarrow> identifiers t)"

text \<open>
  The grammar \<open>MAJOR.MINOR.PATCH[-PRERELEASE][+BUILD]\<close>: the text built from three
  numeric fields, an optional pre-release after one \<open>-\<close> and an optional build
  metadata after one \<open>+\<close>.
\<close>

definition versionText :: "string \<Rightarrow> string \<Rightarrow> string \<Rightarrow> string option \<Rightarrow> string option \<Rightarrow> string" where
  "versionText maj mi pat pre build =
     maj @ ''.'' @ mi @ ''.'' @ pat
     @ (case pre of None \<Rightarrow> [] | Some p \<Rightarrow> ''-'' @ p)
     @ (case build of None \<Rightarrow> [] | Some b \<Rightarrow> ''+'' @ b)"

text \<open>The text of an optional field, empty when the field is absent.\<close>

definition optText :: "string option \<Rightarrow> string" where
  "optText x = (case x of None \<Rightarrow> [] | Some t \<Rightarrow> t)"

text \<open>A byte that the scan, in a given state, appends to the current part.\<close>

definition literalIn :: "scanState \<Rightarrow> char \<Rightarrow> bool" where
  "literalIn st c =
     (isAscii c \<and> \<not> (c = CHR ''.'' \<and> partIndex st < 2)
      \<and> \<not> (c = CHR ''-'' \<and> \<not> didEnterPreReleasePart st \<and> \<not> didEnterBuildMetadataPart st)
      \<and> \<not> (c = CHR ''+'' \<and> \<not> didEnterBuildMetadataPart st))"

text \<open>The state after appending a text to the current part.\<close>

definition writeText :: "scanState \<Rightarrow> string \<Rightarrow> scanState" where
  "writeText st t = st\<lparr>parts := (parts st)[partIndex st := parts st ! partIndex st @ t]\<rparr>"

text \<open>A scan state, by its components.\<close>

definition scanned :: "string list \<Rightarrow> nat \<Rightarrow> bool \<Rightarrow> bool \<Rightarrow> scanState" where
  "scanned ps i pre build =
     \<lparr>parts = ps, partIndex = i, didEnterPreReleasePart = pre,
      didEnterBuildMetadataPart = build\<rparr>"

text \<open>The version \<open>Parse\<close> returns for a string (the \<open>MustParse\<close> of the tests, without its panic).\<close>

definition parsed :: "string \<Rightarrow> SemVer" where
  "parsed s = (case Parse s of Some (v, _) \<Rightarrow> v | None \<Rightarrow> zeroSemVer)"

text \<open>The number of versions of the sort scenario that are less than a version.\<close>

definition rank :: "SemVer \<Rightarrow> nat" where
  "rank v = length (filter (\<lambda>w. IsLess w v) sortScenarioVersions)"

section \<open>Properties of the comparator\<close>

subsection \<open>The precedence chain\<close>

lemma parse_precedenceChain:
  "map Parse precedenceChain = map (\<lambda>v. Some (v, None)) precedenceChainVersions"
  by code_simp

lemma precedenceChain_sorted:
  "sorted_wrt (\<lambda>a b. IsLess a b \<and> IsGrater b a) precedenceChainVersions"
  by code_simp

text \<open>
  Claim C8. For every two positions \<open>i < j\<close> of the chain \<open>1.0.0-alpha\<close>,
  \<open>1.0.0-alpha.1\<close>, \<open>1.0.0-alpha.beta\<close>, \<open>1.0.0-beta\<close>, \<open>1.0.0-beta.2\<close>,
  \<open>1.0.0-beta.11\<close>, \<open>1.0.0-rc.1\<close>, \<open>1.0.0\<close>, both strings parse without error,
  \<open>IsLess\<close> holds from the earlier to the later version and \<open>IsGrater\<close> from the
  later to the earlier.
\<close>

theorem precedence_chain:
  assumes "i < j" and "j < length precedenceChain"
  shows "\<exists>a b. Parse (precedenceChain ! i) = Some (a, None)
            \<and> Parse (precedenceChain ! j) = Some (b, None)
            \<and> IsLess a b \<and> IsGrater b a"
proof -
  have len: "length precedenceChainVersions = length precedenceChain"
    by (simp add: precedenceChainVersions_def precedenceChain_def)
  have nth: "Parse (precedenceChain ! k) = Some (precedenceChainVersions ! k, None)"
    if "k < length precedenceChain" for k
  proof -
    have "map Parse precedenceChain ! k = map (\<lambda>v. Some (v, None)) precedenceChainVersions ! k"
      by (simp only: parse_precedenceChain)
    with that len show ?thesis by simp
  qed
  have "IsLess (precedenceChainVersions ! i) (precedenceChainVersions ! j)
        \<and> IsGrater (precedenceChainVersions ! j) (precedenceChainVersions ! i)"
    using sorted_wrt_nth_less [OF precedenceChain_sorted, of i j] assms len by simp
  with nth [of i] nth [of j] assms show ?thesis by simp
qed

theorem precedence_chain_witness:
  "\<exists>a b. Parse ''1.0.0-alpha'' = Some (a, None) \<and> Parse ''1.0.0'' = Some (b, None)
         \<and> IsLess a b \<and> IsGrater b a"
  using precedence_chain [of 0 7] by (simp add: precedenceChain_def)

subsection \<open>Build metadata\<close>

text \<open>
  Claim C6. Build metadata never influences comparison or equality: whatever strings
  replace the \<open>BuildMetadata\<close> fields of two versions, \<open>Compare\<close> and \<open>IsEquql\<close>
  give the same results as before; and \<open>1.2.3+a\<close> and \<open>1.2.3+b\<close> parse to versions
  that compare as equal.
\<close>

theorem build_metadata_irrelevant:
  "Compare (a\<lparr>BuildMetadata := m1\<rparr>) (b\<lparr>BuildMetadata := m2\<rparr>) = Compare a b
   \<and> IsEquql (a\<lparr>BuildMetadata := m1\<rparr>) (b\<lparr>BuildMetadata := m2\<rparr>) = IsEquql a b
   \<and> Parse ''1.2.3+a'' = Some (semVer 1 2 3 [] ''a'', None)
   \<and> Parse ''1.2.3+b'' = Some (semVer 1 2 3 [] ''b'', None)
   \<and> Compare (semVer 1 2 3 [] ''a'') (semVer 1 2 3 [] ''b'') = 0"
proof -
  have "Compare (a\<lparr>BuildMetadata := m1\<rparr>) (b\<lparr>BuildMetadata := m2\<rparr>) = Compare a b"
    by (simp add: Compare_def generateCompareToOtherResult_def comparePreRelease_def Let_def)
  moreover have "IsEquql (a\<lparr>BuildMetadata := m1\<rparr>) (b\<lparr>BuildMetadata := m2\<rparr>) = IsEquql a b"
    by (simp add: IsEquql_def)
  moreover have "Parse ''1.2.3+a'' = Some (semVer 1 2 3 [] ''a'', None)"
    by code_simp
  moreover have "Parse ''1.2.3+b'' = Some (semVer 1 2 3 [] ''b'', None)"
    by code_simp
  moreover have "Compare (semVer 1 2 3 [] ''a'') (semVer 1 2 3 [] ''b'') = 0"
    by code_simp
  ultimately show ?thesis by blast
qed

theorem build_metadata_irrelevant_witness:
  "Compare (semVer 1 0 0 ''rc.1'' ''x'') (semVer 1 0 0 ''rc.2'' ''y'')
     = Compare (semVer 1 0 0 ''rc.1'' []) (semVer 1 0 0 ''rc.2'' [])
   \<and> IsEquql (semVer 1 0 0 ''rc.1'' ''x'') (semVer 1 0 0 ''rc.1'' ''y'')"
  using build_metadata_irrelevant [where a = "semVer 1 0 0 ''rc.1'' []" and ?m1.0 = "''x''"
      and b = "semVer 1 0 0 ''rc.2'' []" and ?m2.0 = "''y''"]
    build_metadata_irrelevant [where a = "semVer 1 0 0 ''rc.1'' []" and ?m1.0 = "''x''"
      and b = "semVer 1 0 0 ''rc.1'' []" and ?m2.0 = "''y''"]
  by (simp add: semVer_def IsEquql_def)

subsection \<open>The value returned after the identifier loop\<close>

text \<open>
  Claim C1 says that two pre-releases whose identifiers agree at every common position
  are ordered by their number of identifiers. The function returns the comparison of
  the byte lengths of the two strings instead. \<open>1.0.0-0001\<close> and \<open>1.0.0-1.2\<close> parse;
  their identifier lists are \<open>[0001]\<close> and \<open>[1, 2]\<close>, which agree (numerically) at
  the one common position; the second has more identifiers, and yet the first is
  reported greater. \<open>01\<close> and \<open>1\<close> have one identifier each, equal as numbers, and are
  not reported equal.
\<close>

theorem comparePreRelease_byte_length:
  "Parse ''1.0.0-0001'' = Some (semVer 1 0 0 ''0001'' [], None)
   \<and> Parse ''1.0.0-1.2'' = Some (semVer 1 0 0 ''1.2'' [], None)
   \<and> Split ''0001'' = [''0001''] \<and> Split ''1.2'' = [''1'', ''2'']
   \<and> mayParseDigit ''0001'' = Some 1 \<and> mayParseDigit ''1'' = Some 1
   \<and> comparePreRelease (semVer 1 0 0 ''0001'' []) (semVer 1 0 0 ''1.2'' []) = 1
   \<and> comparePreRelease (semVer 1 0 0 ''01'' []) (semVer 1 0 0 ''1'' []) = 1"
  by code_simp

subsection \<open>Reflexivity and antisymmetry of \<open>Compare\<close>\<close>

text \<open>
  Two of the three order laws hold for all versions: a version compares as equal to
  itself, and exchanging the operands negates the result. They are proved here for the
  functions as written, byte-length comparison included.
\<close>

lemma cmpCompare_refl: "cmpCompare x x = 0"
  by (simp add: cmpCompare_def)

lemma cmpCompare_antisym: "cmpCompare y x = - cmpCompare x y"
  by (simp add: cmpCompare_def)

lemma cmpCompareStr_refl: "cmpCompareStr a a = 0"
  by (induction a) simp_all

lemma cmpCompareStr_antisym: "cmpCompareStr b a = - cmpCompareStr a b"
  by (induction a b rule: cmpCompareStr.induct) simp_all

lemma comparePreReleaseLoop_refl: "comparePreReleaseLoop ts ts fin = fin"
  by (induction ts) (simp_all add: cmpCompareStr_refl split: option.splits)

lemma comparePreReleaseLoop_antisym:
  "comparePreReleaseLoop os ts (- fin) = - comparePreReleaseLoop ts os fin"
proof (induction ts os fin rule: comparePreReleaseLoop.induct)
  case (1 thisPart ts otherPart os fin)
  then show ?case
    by (cases "mayParseDigit thisPart"; cases "mayParseDigit otherPart")
      (auto simp: Let_def cmpCompare_def cmpCompareStr_antisym [of otherPart thisPart])
next
  case (2 os fin)
  then show ?case by (cases os) simp_all
next
  case (3 ts fin)
  then show ?case by (cases ts) simp_all
qed

lemma comparePreRelease_refl: "comparePreRelease s s = 0"
  by (simp add: comparePreRelease_def comparePreReleaseLoop_refl cmpCompare_refl Let_def)

lemma comparePreRelease_antisym: "comparePreRelease o' s = - comparePreRelease s o'"
  using comparePreReleaseLoop_antisym
    [of "Split (PreRelease o')" "Split (PreRelease s)"
        "cmpCompare (int (length (PreRelease s))) (int (length (PreRelease o')))"]
  by (simp add: comparePreRelease_def Let_def
      cmpCompare_antisym [of "int (length (PreRelease o'))" "int (length (PreRelease s))"])

lemma Compare_refl: "Compare a a = 0"
  by (simp add: Compare_def generateCompareToOtherResult_def cmpCompare_refl
      comparePreRelease_refl)

lemma firstResult_neg: "firstResult (\<lambda>r. r) 0 (map uminus rs) = - firstResult (\<lambda>r. r) 0 rs"
  by (induction rs) simp_all

lemma Compare_antisym: "Compare b a = - Compare a b"
proof -
  have "generateCompareToOtherResult b a = map uminus (generateCompareToOtherResult a b)"
    by (simp add: generateCompareToOtherResult_def comparePreRelease_antisym [of b a]
        cmpCompare_antisym [of "Major a"] cmpCompare_antisym [of "Minor a"]
        cmpCompare_antisym [of "Patch a"])
  then show ?thesis by (simp add: Compare_def firstResult_neg)
qed

subsection \<open>Transitivity of \<open>Compare\<close>\<close>

text \<open>
  Claim C2 says that \<open>Compare\<close> is a total order. It is reflexive and antisymmetric,
  and it is not transitive: \<open>1.0.0-1.b\<close>
  equals \<open>1.0.0-001\<close> (one common identifier, numerically equal, and both strings
  three bytes long), \<open>1.0.0-001\<close> equals \<open>1.0.0-1.a\<close> for the same reason, and
  \<open>1.0.0-1.b\<close> is greater than \<open>1.0.0-1.a\<close>.
\<close>

theorem Compare_not_transitive:
  "Parse ''1.0.0-1.b'' = Some (semVer 1 0 0 ''1.b'' [], None)
   \<and> Parse ''1.0.0-001'' = Some (semVer 1 0 0 ''001'' [], None)
   \<and> Parse ''1.0.0-1.a'' = Some (semVer 1 0 0 ''1.a'' [], None)
   \<and> Compare (semVer 1 0 0 ''1.b'' []) (semVer 1 0 0 ''001'' []) = 0
   \<and> Compare (semVer 1 0 0 ''001'' []) (semVer 1 0 0 ''1.a'' []) = 0
   \<and> Compare (semVer 1 0 0 ''1.b'' []) (semVer 1 0 0 ''1.a'' []) = 1"
  by code_simp

section \<open>Properties of the parser\<close>

subsection \<open>Bytes written by \<open>WriteRune\<close>\<close>

lemma of_char_char_of_int: "0 \<le> x \<Longrightarrow> x < 256 \<Longrightarrow> (of_char (char_of (x::int)) :: int) = x"
  by simp

lemma encodeRune_ascii: "0 \<le> r \<Longrightarrow> r < 128 \<Longrightarrow> encodeRune r = [char_of r]"
  by (simp add: encodeRune_def)

lemma encodeRune_high:
  assumes "\<not> (0 \<le> r \<and> r < 128)" and "b \<in> set (encodeRune r)"
  shows "128 \<le> (of_char b :: int)"
proof -
  have m: "128 \<le> (128 + x mod 64) mod 256" for x :: int
  proof -
    have "0 \<le> x mod 64" "x mod 64 < 64" by simp_all
    then show ?thesis by simp
  qed
  have c0: "128 \<le> (192 + r div 64) mod 256" if "128 \<le> r" "r < 2048"
  proof -
    from that have "2 \<le> r div 64" "r div 64 < 32" by simp_all
    then show ?thesis by simp
  qed
  have e0: "128 \<le> (224 + r div 4096) mod 256" if "2048 \<le> r" "r < 65536"
  proof -
    from that have "0 \<le> r div 4096" "r div 4096 < 16" by simp_all
    then show ?thesis by simp
  qed
  have f0: "128 \<le> (240 + r div 262144) mod 256" if "65536 \<le> r" "r \<le> 1114111"
  proof -
    from that have "0 \<le> r div 262144" "r div 262144 < 5" by simp_all
    then show ?thesis by simp
  qed
  from assms show ?thesis
    unfolding encodeRune_def
    by (auto simp: m c0 e0 f0 split: if_splits)
qed

lemma encodeRune_noSign:
  assumes "r \<noteq> of_char CHR ''-''" and "r \<noteq> of_char CHR ''+''"
  shows "noSign (encodeRune r)"
proof (cases "0 \<le> r \<and> r < 128")
  case True
  then have "encodeRune r = [char_of r]" by (simp add: encodeRune_ascii)
  moreover from True have "(of_char (char_of r) :: int) = r" by simp
  then have ne: "char_of r \<noteq> c" if "r \<noteq> of_char c" for c
    using that by auto
  have "char_of r \<noteq> CHR ''-''" "char_of r \<noteq> CHR ''+''"
    using ne [OF assms(1)] ne [OF assms(2)] by blast+
  ultimately show ?thesis by (auto simp: noSign_def)
next
  case False
  have "b \<noteq> CHR ''-'' \<and> b \<noteq> CHR ''+''" if "b \<in> set (encodeRune r)" for b
    using encodeRune_high [OF False that] by auto
  then show ?thesis by (auto simp: noSign_def)
qed

lemma noSign_append: "noSign (a @ b) = (noSign a \<and> noSign b)"
  by (auto simp: noSign_def)

subsection \<open>The invariant of the scan\<close>

lemma scanInv_init: "scanInv initState"
  by (simp add: scanInv_def initState_def noSign_def numeral_eq_Suc)

lemma scanStep_inv:
  assumes "scanInv st"
  shows "\<exists>st'. scanStep st c = Some st' \<and> scanInv st'"
proof -
  from assms have len: "length (parts st) = 5" and pi: "partIndex st \<le> 4"
    by (simp_all add: scanInv_def)
  let ?dot = "c = of_char CHR ''.'' \<and> partIndex st < 2"
  let ?pre = "c = of_char CHR ''-'' \<and> \<not> didEnterPreReleasePart st \<and> \<not> didEnterBuildMetadataPart st"
  let ?build = "c = of_char CHR ''+'' \<and> \<not> didEnterBuildMetadataPart st"
  consider (dot) "?dot" | (pre) "\<not> ?dot \<and> ?pre" | (build) "\<not> ?dot \<and> \<not> ?pre \<and> ?build"
    | (lit) "\<not> ?dot \<and> \<not> ?pre \<and> \<not> ?build"
    by blast
  then show ?thesis
  proof cases
    case dot
    with assms show ?thesis by (simp add: scanStep_def scanInv_def)
  next
    case pre
    with assms show ?thesis by (simp add: scanStep_def scanInv_def)
  next
    case build
    with assms show ?thesis by (simp add: scanStep_def scanInv_def)
  next
    case lit
    have step: "scanStep st c =
        Some (st\<lparr>parts := (parts st)[partIndex st := parts st ! partIndex st @ encodeRune c]\<rparr>)"
      using lit len pi by (auto simp: scanStep_def)
    have ns: "noSign (encodeRune c)" if "partIndex st \<le> 2"
    proof -
      from that assms have "\<not> didEnterPreReleasePart st" "\<not> didEnterBuildMetadataPart st"
        by (simp_all add: scanInv_def)
      with lit have "c \<noteq> of_char CHR ''-''" "c \<noteq> of_char CHR ''+''" by auto
      then show ?thesis by (rule encodeRune_noSign)
    qed
    have "noSign ((parts st)[partIndex st := parts st ! partIndex st @ encodeRune c] ! i)"
      if "i \<le> 2" "noSign (parts st ! i)" for i
    proof (cases "i = partIndex st")
      case True
      with that ns len show ?thesis by (simp add: noSign_append)
    next
      case False
      with that show ?thesis by simp
    qed
    from this [of 0] this [of 1] this [of 2] assms
    have "scanInv (st\<lparr>parts := (parts st)[partIndex st := parts st ! partIndex st @ encodeRune c]\<rparr>)"
      by (simp add: scanInv_def)
    with step show ?thesis by simp
  qed
qed

lemma scanLoop_inv:
  "scanInv st \<Longrightarrow> \<exists>st'. scanLoop st cs = Some st' \<and> scanInv st'"
proof (induction cs arbitrary: st)
  case Nil
  then show ?case by simp
next
  case (Cons c cs)
  from scanStep_inv [OF Cons.prems, of c] obtain st1
    where "scanStep st c = Some st1" "scanInv st1" by blast
  with Cons.IH [of st1] show ?case by simp
qed

lemma scan_inv: "\<exists>st. scan s = Some st \<and> scanInv st"
  unfolding scan_def by (rule scanLoop_inv [OF scanInv_init])

lemma scan_prefix_inv:
  "\<exists>st. scanLoop initState (take n (runes s)) = Some st \<and> scanInv st"
  by (rule scanLoop_inv [OF scanInv_init])

text \<open>
  Claim C10. \<open>Parse\<close> is total and safe on every input string: it always returns a
  pair of a version and an error value, and after every prefix of the runes of the input
  the scan has not panicked, the cursor \<open>partIndex\<close> is one of 0, 1, 2, 3, 4, the
  slice still has five parts, and so the cursor is a valid index of it.
\<close>

theorem Parse_total:
  "(\<exists>v e. Parse s = Some (v, e))
   \<and> (\<forall>n. \<exists>st. scanLoop initState (take n (runes s)) = Some st
          \<and> partIndex st \<in> {0, 1, 2, 3, 4} \<and> length (parts st) = 5
          \<and> partIndex st < length (parts st))"
proof
  from scan_inv [of s] obtain st where "scan s = Some st" by blast
  then have "Parse s = Some (convert (parts st))" by (simp add: Parse_def)
  then show "\<exists>v e. Parse s = Some (v, e)" by (cases "convert (parts st)") simp
next
  show "\<forall>n. \<exists>st. scanLoop initState (take n (runes s)) = Some st
          \<and> partIndex st \<in> {0, 1, 2, 3, 4} \<and> length (parts st) = 5
          \<and> partIndex st < length (parts st)"
  proof
    fix n
    from scan_prefix_inv [of n s] obtain st
      where st: "scanLoop initState (take n (runes s)) = Some st" "scanInv st" by blast
    from st(2) have "partIndex st \<le> 4" "length (parts st) = 5" by (simp_all add: scanInv_def)
    moreover from this have "partIndex st \<in> {0, 1, 2, 3, 4}" by auto
    ultimately show "\<exists>st. scanLoop initState (take n (runes s)) = Some st
          \<and> partIndex st \<in> {0, 1, 2, 3, 4} \<and> length (parts st) = 5
          \<and> partIndex st < length (parts st)"
      using st(1) by simp
  qed
qed

theorem Parse_total_witness:
  "(\<exists>v e. Parse [] = Some (v, e))
   \<and> (\<exists>st. scanLoop initState (take 3 (runes ''1.-+x'')) = Some st \<and> partIndex st = 3)"
proof -
  have "scanLoop initState (take 3 (runes ''1.-+x'')) =
          Some \<lparr>parts = [''1'', [], [], [], []], partIndex = 3,
                didEnterPreReleasePart = True, didEnterBuildMetadataPart = False\<rparr>"
    by code_simp
  with Parse_total [of "[]"] show ?thesis by simp
qed

subsection \<open>The conversion of the numeric fields\<close>

lemma digitsVal_foldl_nonneg:
  "0 \<le> n \<Longrightarrow> list_all isDigit ds
   \<Longrightarrow> (0::int) \<le> foldl (\<lambda>n ch. n * 10 + (of_char ch - 48)) n ds"
proof (induction ds arbitrary: n)
  case Nil
  then show ?case by simp
next
  case (Cons c ds)
  from Cons.prems have "(0::int) \<le> n * 10 + (of_char c - 48)"
    by (simp add: isDigit_def)
  with Cons.IH [of "n * 10 + (of_char c - 48)"] Cons.prems show ?case by simp
qed

lemma digitsVal_nonneg: "list_all isDigit ds \<Longrightarrow> 0 \<le> digitsVal ds"
  unfolding digitsVal_def by (rule digitsVal_foldl_nonneg) simp

lemma isDigit_not_sign: "isDigit c \<Longrightarrow> c \<noteq> CHR ''-'' \<and> c \<noteq> CHR ''+''"
  by (auto simp: isDigit_def)

lemma Atoi_numericText:
  "numericText t \<Longrightarrow> Atoi t = (if digitsVal t \<le> maxInt then Some (digitsVal t) else None)"
proof -
  assume nt: "numericText t"
  then obtain c cs where t: "t = c # cs" by (cases t) (auto simp: numericText_def)
  with nt have "isDigit c" by (simp add: numericText_def)
  then have c: "c \<noteq> CHR ''-''" "c \<noteq> CHR ''+''" using isDigit_not_sign by blast+
  from nt have "0 \<le> digitsVal t" by (simp add: numericText_def digitsVal_nonneg)
  then have "minInt \<le> digitsVal t" by (simp add: minInt_def)
  with nt c t show ?thesis by (simp add: Atoi_def numericText_def)
qed

lemma Atoi_noSign:
  assumes "noSign t"
  shows "Atoi t = (if numericText t \<and> digitsVal t \<le> maxInt then Some (digitsVal t) else None)"
proof (cases "numericText t")
  case True
  then show ?thesis by (simp add: Atoi_numericText)
next
  case False
  show ?thesis
  proof (cases t)
    case Nil
    then show ?thesis by (simp add: Atoi_def numericText_def)
  next
    case (Cons c cs)
    with assms have "c \<noteq> CHR ''-''" "c \<noteq> CHR ''+''" by (auto simp: noSign_def)
    with Cons False show ?thesis by (auto simp: Atoi_def numericText_def Let_def)
  qed
qed

lemma convert_success:
  assumes "convert ps = (v, None)"
  shows "Atoi (ps ! 0) = Some (Major v) \<and> Atoi (ps ! 1) = Some (Minor v)
         \<and> Atoi (ps ! 2) = Some (Patch v)
         \<and> PreRelease v = ps ! 3 \<and> BuildMetadata v = ps ! 4"
  using assms by (auto simp: convert_def split: option.splits)

lemma Atoi_noSign_nonneg: "noSign t \<Longrightarrow> Atoi t = Some n \<Longrightarrow> 0 \<le> n"
  by (auto simp: Atoi_noSign numericText_def digitsVal_nonneg split: if_splits)

text \<open>
  Claim C9. Whenever \<open>Parse\<close> succeeds, the major, minor and patch numbers of the
  version it returns are not negative: no sign byte reaches a numeric text, so
  \<open>strconv.Atoi\<close> never reads a sign there.
\<close>

theorem Parse_nonneg:
  assumes "Parse s = Some (v, None)"
  shows "0 \<le> Major v \<and> 0 \<le> Minor v \<and> 0 \<le> Patch v"
proof -
  from scan_inv [of s] obtain st where st: "scan s = Some st" "scanInv st" by blast
  with assms have "convert (parts st) = (v, None)" by (simp add: Parse_def)
  from convert_success [OF this]
  have a: "Atoi (parts st ! 0) = Some (Major v)" "Atoi (parts st ! 1) = Some (Minor v)"
    "Atoi (parts st ! 2) = Some (Patch v)" by simp_all
  from st(2) have n: "noSign (parts st ! 0)" "noSign (parts st ! 1)" "noSign (parts st ! 2)"
    by (simp_all add: scanInv_def)
  show ?thesis
    using Atoi_noSign_nonneg [OF n(1) a(1)] Atoi_noSign_nonneg [OF n(2) a(2)]
      Atoi_noSign_nonneg [OF n(3) a(3)] by simp
qed

theorem Parse_nonneg_witness:
  "Parse ''62.99.57962-rc.1+b'' = Some (semVer 62 99 57962 ''rc.1'' ''b'', None)
   \<and> (0::int) \<le> 62 \<and> (0::int) \<le> 99 \<and> (0::int) \<le> 57962"
proof -
  have p: "Parse ''62.99.57962-rc.1+b'' = Some (semVer 62 99 57962 ''rc.1'' ''b'', None)"
    by code_simp
  from Parse_nonneg [OF p] p show ?thesis by (simp add: semVer_def)
qed

lemma Atoi_fieldOk: "fieldOk t \<Longrightarrow> Atoi t = Some (digitsVal t)"
  by (simp add: fieldOk_def Atoi_numericText)

lemma Atoi_noSign_None: "noSign t \<Longrightarrow> (Atoi t \<noteq> None) = fieldOk t"
  by (simp add: Atoi_noSign fieldOk_def)

lemma convert_None_iff:
  "(snd (convert ps) = None) = (Atoi (ps ! 0) \<noteq> None \<and> Atoi (ps ! 1) \<noteq> None \<and> Atoi (ps ! 2) \<noteq> None)"
  by (auto simp: convert_def split: option.splits)

lemma convert_error: "snd (convert ps) = None \<or> snd (convert ps) = Some ErrInvalidSemVerSyntax"
  by (auto simp: convert_def split: option.splits)

lemma convert_fails:
  "Atoi (ps ! 0) = None \<or> Atoi (ps ! 1) = None \<or> Atoi (ps ! 2) = None
   \<Longrightarrow> snd (convert ps) = Some ErrInvalidSemVerSyntax"
  by (auto simp: convert_def split: option.splits)

text \<open>
  Claim C3, amended. For every input whose three numeric field texts are non-empty,
  all-digit strings: if the three values are at most \<open>2^63 - 1\<close> (the largest
  \<open>int\<close>), \<open>Parse\<close> succeeds and stores exactly the values of the three digit
  strings, with the pre-release and build-metadata texts as scanned; and if one of the
  values is above \<open>2^63 - 1\<close>, \<open>Parse\<close> returns the syntax error.
\<close>

theorem Parse_exact:
  assumes "scan s = Some st"
    and "numericText (parts st ! 0)" and "numericText (parts st ! 1)"
    and "numericText (parts st ! 2)"
  shows "(digitsVal (parts st ! 0) \<le> maxInt \<and> digitsVal (parts st ! 1) \<le> maxInt
            \<and> digitsVal (parts st ! 2) \<le> maxInt
          \<longrightarrow> Parse s = Some (semVer (digitsVal (parts st ! 0)) (digitsVal (parts st ! 1))
                           (digitsVal (parts st ! 2)) (parts st ! 3) (parts st ! 4), None))
       \<and> (maxInt < digitsVal (parts st ! 0) \<or> maxInt < digitsVal (parts st ! 1)
            \<or> maxInt < digitsVal (parts st ! 2)
          \<longrightarrow> (\<exists>v. Parse s = Some (v, Some ErrInvalidSemVerSyntax)))"
proof (intro conjI impI)
  assume le: "digitsVal (parts st ! 0) \<le> maxInt \<and> digitsVal (parts st ! 1) \<le> maxInt
            \<and> digitsVal (parts st ! 2) \<le> maxInt"
  have "Atoi (parts st ! 0) = Some (digitsVal (parts st ! 0))"
    "Atoi (parts st ! 1) = Some (digitsVal (parts st ! 1))"
    "Atoi (parts st ! 2) = Some (digitsVal (parts st ! 2))"
    using assms le by (simp_all add: Atoi_fieldOk fieldOk_def)
  then have "convert (parts st) = (semVer (digitsVal (parts st ! 0)) (digitsVal (parts st ! 1))
                           (digitsVal (parts st ! 2)) (parts st ! 3) (parts st ! 4), None)"
    by (simp add: convert_def semVer_def)
  with assms(1) show "Parse s = Some (semVer (digitsVal (parts st ! 0)) (digitsVal (parts st ! 1))
                           (digitsVal (parts st ! 2)) (parts st ! 3) (parts st ! 4), None)"
    by (simp add: Parse_def)
next
  assume gt: "maxInt < digitsVal (parts st ! 0) \<or> maxInt < digitsVal (parts st ! 1)
            \<or> maxInt < digitsVal (parts st ! 2)"
  have none: "Atoi t = None" if "numericText t" "maxInt < digitsVal t" for t
    using that by (simp add: Atoi_numericText)
  from gt have "Atoi (parts st ! 0) = None \<or> Atoi (parts st ! 1) = None
      \<or> Atoi (parts st ! 2) = None"
  proof (elim disjE)
    assume "maxInt < digitsVal (parts st ! 0)"
    from none [OF assms(2) this] show ?thesis by (rule disjI1)
  next
    assume "maxInt < digitsVal (parts st ! 1)"
    from none [OF assms(3) this] show ?thesis by (intro disjI2 disjI1)
  next
    assume "maxInt < digitsVal (parts st ! 2)"
    from none [OF assms(4) this] show ?thesis by (intro disjI2)
  qed
  then have e: "snd (convert (parts st)) = Some ErrInvalidSemVerSyntax"
    by (rule convert_fails)
  have "Parse s = Some (fst (convert (parts st)), snd (convert (parts st)))"
    using assms(1) by (simp add: Parse_def)
  with e show "\<exists>v. Parse s = Some (v, Some ErrInvalidSemVerSyntax)" by simp
qed

lemma scan_large_major:
  "scan ''17897798789984631.14461777.1100000'' =
     Some \<lparr>parts = [''17897798789984631'', ''14461777'', ''1100000'', [], []], partIndex = 2,
           didEnterPreReleasePart = False, didEnterBuildMetadataPart = False\<rparr>"
  by code_simp

lemma scan_above_range:
  "scan ''0.0.9223372036854775808'' =
     Some \<lparr>parts = [''0'', ''0'', ''9223372036854775808'', [], []], partIndex = 2,
           didEnterPreReleasePart = False, didEnterBuildMetadataPart = False\<rparr>"
  by code_simp

theorem Parse_exact_witness:
  "Parse ''17897798789984631.14461777.1100000''
     = Some (semVer 17897798789984631 14461777 1100000 [] [], None)
   \<and> (\<exists>v. Parse ''0.0.9223372036854775808'' = Some (v, Some ErrInvalidSemVerSyntax))"
proof -
  have d: "digitsVal ''17897798789984631'' = 17897798789984631"
    "digitsVal ''14461777'' = 14461777" "digitsVal ''1100000'' = 1100000"
    "digitsVal ''9223372036854775808'' = 9223372036854775808" "digitsVal ''0'' = 0"
    by code_simp+
  have n: "numericText ''17897798789984631''" "numericText ''14461777''" "numericText ''1100000''"
    "numericText ''0''" "numericText ''9223372036854775808''"
    by code_simp+
  have "Parse ''17897798789984631.14461777.1100000''
     = Some (semVer 17897798789984631 14461777 1100000 [] [], None)"
    using Parse_exact [OF scan_large_major] n d by (simp add: maxInt_def)
  moreover have "\<exists>v. Parse ''0.0.9223372036854775808'' = Some (v, Some ErrInvalidSemVerSyntax)"
    using Parse_exact [OF scan_above_range] n d by (simp add: maxInt_def)
  ultimately show ?thesis by blast
qed

text \<open>
  The claim as stated, for digit strings of any length, fails: the major text of
  \<open>9223372036854775808.0.0\<close> is all digits, its value is \<open>2^63\<close>, and \<open>Parse\<close>
  returns the syntax error.
\<close>

theorem Parse_unbounded_counterexample:
  "scan ''9223372036854775808.0.0'' =
     Some \<lparr>parts = [''9223372036854775808'', ''0'', ''0'', [], []], partIndex = 2,
           didEnterPreReleasePart = False, didEnterBuildMetadataPart = False\<rparr>
   \<and> numericText ''9223372036854775808'' \<and> numericText ''0''
   \<and> digitsVal ''9223372036854775808'' = 9223372036854775808
   \<and> Parse ''9223372036854775808.0.0'' = Some (zeroSemVer, Some ErrInvalidSemVerSyntax)"
  by code_simp

text \<open>
  Claim C5, amended. For every input, \<open>Parse\<close> returns either no error or the syntax
  error, and it returns the syntax error if and only if one of the three numeric field
  texts of the scan is empty, contains a byte that is not a digit, or has a value above
  \<open>2^63 - 1\<close>; \<open>IsValid\<close> is true exactly when there is no error. The inputs
  \<open>1..0\<close>, \<open>1.0\<close>, \<open>1.0-b\<close> and \<open>1b.0.0\<close> fail \<open>Parse\<close> and \<open>IsValid\<close>.
\<close>

theorem Parse_fails_iff:
  "(\<exists>st v e. scan s = Some st \<and> Parse s = Some (v, e)
      \<and> (e = None \<or> e = Some ErrInvalidSemVerSyntax)
      \<and> (e = Some ErrInvalidSemVerSyntax)
          = (\<not> fieldOk (parts st ! 0) \<or> \<not> fieldOk (parts st ! 1) \<or> \<not> fieldOk (parts st ! 2))
      \<and> IsValid s = (e = None))
   \<and> list_all (\<lambda>r. (\<exists>v. Parse r = Some (v, Some ErrInvalidSemVerSyntax)) \<and> \<not> IsValid r) rejected"
proof
  from scan_inv [of s] obtain st where st: "scan s = Some st" "scanInv st" by blast
  obtain v e where c: "convert (parts st) = (v, e)" by (cases "convert (parts st)")
  with st have p: "Parse s = Some (v, e)" by (simp add: Parse_def)
  from st(2) have n: "noSign (parts st ! 0)" "noSign (parts st ! 1)" "noSign (parts st ! 2)"
    by (simp_all add: scanInv_def)
  from convert_error [of "parts st"] c have e: "e = None \<or> e = Some ErrInvalidSemVerSyntax"
    by simp
  have "(e = None) = (Atoi (parts st ! 0) \<noteq> None \<and> Atoi (parts st ! 1) \<noteq> None
          \<and> Atoi (parts st ! 2) \<noteq> None)"
    using convert_None_iff [of "parts st"] c by (simp only: snd_conv)
  then have "(e = None) = (fieldOk (parts st ! 0) \<and> fieldOk (parts st ! 1) \<and> fieldOk (parts st ! 2))"
    by (simp only: Atoi_noSign_None [OF n(1)] Atoi_noSign_None [OF n(2)]
        Atoi_noSign_None [OF n(3)])
  with e have iff: "(e = Some ErrInvalidSemVerSyntax)
          = (\<not> fieldOk (parts st ! 0) \<or> \<not> fieldOk (parts st ! 1) \<or> \<not> fieldOk (parts st ! 2))"
    by auto
  from p have "IsValid s = (e = None)" by (simp add: IsValid_def split: option.splits)
  with st(1) p e iff show "\<exists>st v e. scan s = Some st \<and> Parse s = Some (v, e)
      \<and> (e = None \<or> e = Some ErrInvalidSemVerSyntax)
      \<and> (e = Some ErrInvalidSemVerSyntax)
          = (\<not> fieldOk (parts st ! 0) \<or> \<not> fieldOk (parts st ! 1) \<or> \<not> fieldOk (parts st ! 2))
      \<and> IsValid s = (e = None)"
    by blast
next
  have "map Parse rejected =
     [Some (zeroSemVer\<lparr>Major := 1\<rparr>, Some ErrInvalidSemVerSyntax),
      Some (zeroSemVer\<lparr>Major := 1, Minor := 0\<rparr>, Some ErrInvalidSemVerSyntax),
      Some (zeroSemVer\<lparr>Major := 1, Minor := 0\<rparr>, Some ErrInvalidSemVerSyntax),
      Some (zeroSemVer, Some ErrInvalidSemVerSyntax)]"
    by code_simp
  then show "list_all (\<lambda>r. (\<exists>v. Parse r = Some (v, Some ErrInvalidSemVerSyntax)) \<and> \<not> IsValid r) rejected"
    by (simp add: rejected_def IsValid_def)
qed

lemma scan_two_fields:
  "scan ''1.0'' = Some \<lparr>parts = [''1'', ''0'', [], [], []], partIndex = 1,
           didEnterPreReleasePart = False, didEnterBuildMetadataPart = False\<rparr>"
  by code_simp

theorem Parse_fails_iff_witness:
  "(\<exists>v. Parse ''1.0'' = Some (v, Some ErrInvalidSemVerSyntax)) \<and> \<not> IsValid ''1.0''
   \<and> \<not> IsValid ''1b.0.0''"
proof -
  have "\<not> fieldOk []" by (simp add: fieldOk_def numericText_def)
  with Parse_fails_iff [of "''1.0''"] scan_two_fields show ?thesis
    by (auto simp: rejected_def)
qed

text \<open>
  The claim as stated, with emptiness and non-digits as the only causes, fails: the
  three numeric texts of \<open>1.9223372036854775808.0\<close> are non-empty and all digits,
  and \<open>Parse\<close> returns the syntax error.
\<close>

theorem Parse_digits_only_counterexample:
  "scan ''1.9223372036854775808.0'' =
     Some \<lparr>parts = [''1'', ''9223372036854775808'', ''0'', [], []], partIndex = 2,
           didEnterPreReleasePart = False, didEnterBuildMetadataPart = False\<rparr>
   \<and> numericText ''1'' \<and> numericText ''9223372036854775808'' \<and> numericText ''0''
   \<and> Parse ''1.9223372036854775808.0''
       = Some (zeroSemVer\<lparr>Major := 1\<rparr>, Some ErrInvalidSemVerSyntax)
   \<and> \<not> IsValid ''1.9223372036854775808.0''"
  by code_simp

subsection \<open>Round trip through \<open>String\<close>\<close>

lemma runes_ascii: "list_all isAscii s \<Longrightarrow> runes s = map of_char s"
  by (induction s) (simp_all add: isAscii_def)

lemma digitsVal_snoc: "digitsVal (t @ [d]) = digitsVal t * 10 + (of_char d - 48)"
  by (simp add: digitsVal_def)

lemma fmtDigits_digitsVal:
  "list_all isDigit t \<Longrightarrow> t \<noteq> [] \<Longrightarrow> hd t \<noteq> CHR ''0''
   \<Longrightarrow> 1 \<le> digitsVal t \<and> fmtDigits (digitsVal t) = t"
proof (induction t rule: rev_induct)
  case Nil
  then show ?case by simp
next
  case (snoc d u)
  from snoc.prems have d: "48 \<le> (of_char d :: int)" "(of_char d :: int) \<le> 57"
    by (simp_all add: isDigit_def)
  show ?case
  proof (cases "u = []")
    case True
    with snoc.prems have "d \<noteq> CHR ''0''" by simp
    then have "(of_char d :: int) \<noteq> of_char CHR ''0''" by (simp only: of_char_eq_iff not_False_eq_True)
    then have "(of_char d :: int) \<noteq> 48" by simp
    with d have "1 \<le> (of_char d :: int) - 48" "(of_char d :: int) - 48 < 10" by simp_all
    with True show ?thesis
      by (simp add: digitsVal_def)
  next
    case False
    with snoc.prems have "list_all isDigit u" "hd u \<noteq> CHR ''0''" by simp_all
    with snoc.IH False have ih: "1 \<le> digitsVal u" "fmtDigits (digitsVal u) = u" by simp_all
    let ?x = "(of_char d :: int) - 48"
    let ?v = "digitsVal u * 10 + ?x"
    from d have x: "0 \<le> ?x" "?x < 10" by simp_all
    with ih(1) have "\<not> ?v < 10" "?v div 10 = digitsVal u" "?v mod 10 = ?x" by simp_all
    then have "fmtDigits ?v = fmtDigits (digitsVal u) @ [char_of (48 + ?x)]"
      by (subst fmtDigits.simps) simp
    with ih x show ?thesis by (simp add: digitsVal_snoc)
  qed
qed

lemma formatInt_canonical: "canonical t \<Longrightarrow> formatInt (digitsVal t) = t"
proof -
  assume c: "canonical t"
  show ?thesis
  proof (cases "t = ''0''")
    case True
    have "formatInt (digitsVal ''0'') = ''0''" by code_simp
    with True show ?thesis by simp
  next
    case False
    with c have "list_all isDigit t" "t \<noteq> []" "hd t \<noteq> CHR ''0''"
      by (simp_all add: canonical_def plainNumeral_def numericText_def)
    from fmtDigits_digitsVal [OF this] show ?thesis by (simp add: formatInt_def)
  qed
qed

lemma rune_dot: "((of_char c :: int) = 46) = (c = CHR ''.'')"
  using of_char_eq_iff [of c "CHR ''.''", where ?'a = int] by simp

lemma rune_minus: "((of_char c :: int) = 45) = (c = CHR ''-'')"
  using of_char_eq_iff [of c "CHR ''-''", where ?'a = int] by simp

lemma rune_plus: "((of_char c :: int) = 43) = (c = CHR ''+'')"
  using of_char_eq_iff [of c "CHR ''+''", where ?'a = int] by simp

lemma of_char_nonneg: "0 \<le> (of_char c :: int)"
proof -
  have "0 \<le> (of_nat (of_char c :: nat) :: int)" by (rule of_nat_0_le_iff)
  then show ?thesis by (simp only: of_nat_of_char)
qed

lemma encodeRune_of_char: "isAscii c \<Longrightarrow> encodeRune (of_char c) = [c]"
  by (simp add: encodeRune_ascii isAscii_def of_char_nonneg)

lemma scanStep_literal:
  "partIndex st < length (parts st) \<Longrightarrow> literalIn st c
   \<Longrightarrow> scanStep st (of_char c) = Some (writeText st [c])"
  by (auto simp: scanStep_def literalIn_def writeText_def encodeRune_of_char
      rune_dot rune_minus rune_plus)

lemma writeText_writeText:
  "partIndex st < length (parts st) \<Longrightarrow> writeText (writeText st a) b = writeText st (a @ b)"
  by (simp add: writeText_def)

lemma literalIn_writeText: "literalIn (writeText st a) = literalIn st"
  by (rule ext) (simp add: literalIn_def writeText_def)

lemma writeText_Nil: "partIndex st < length (parts st) \<Longrightarrow> writeText st [] = st"
  by (simp add: writeText_def)

lemma scanLoop_literals:
  "partIndex st < length (parts st) \<Longrightarrow> list_all (literalIn st) t
   \<Longrightarrow> scanLoop st (map of_char t @ rs) = scanLoop (writeText st t) rs"
proof (induction t arbitrary: st)
  case Nil
  then show ?case by (simp add: writeText_Nil)
next
  case (Cons c t)
  have len: "partIndex (writeText st [c]) < length (parts (writeText st [c]))"
    using Cons.prems(1) by (simp add: writeText_def)
  have lit: "list_all (literalIn (writeText st [c])) t"
    using Cons.prems(2) by (simp add: literalIn_writeText)
  have "scanLoop st (map of_char (c # t) @ rs) = scanLoop (writeText st [c]) (map of_char t @ rs)"
    using Cons.prems by (simp add: scanStep_literal)
  also have "\<dots> = scanLoop (writeText (writeText st [c]) t) rs"
    by (rule Cons.IH [OF len lit])
  also have "writeText (writeText st [c]) t = writeText st (c # t)"
    using Cons.prems(1) by (simp add: writeText_writeText)
  finally show ?case .
qed

lemma isDigit_literalIn: "isDigit c \<Longrightarrow> literalIn st c"
  by (auto simp: isDigit_def literalIn_def isAscii_def)

lemma digits_literalIn: "list_all isDigit t \<Longrightarrow> list_all (literalIn st) t"
  by (simp add: list_all_iff isDigit_literalIn)

lemma scan_digits:
  "list_all isDigit t \<Longrightarrow> i < 3
   \<Longrightarrow> scanLoop (scanned [p0, p1, p2, p3, p4] i False False) (map of_char t @ rs)
       = scanLoop (scanned ([p0, p1, p2, p3, p4][i := [p0, p1, p2, p3, p4] ! i @ t]) i False False) rs"
  using scanLoop_literals [of "scanned [p0, p1, p2, p3, p4] i False False" t rs]
  by (simp add: digits_literalIn) (simp add: scanned_def writeText_def)

lemma scan_dot:
  "i < 2 \<Longrightarrow> scanLoop (scanned ps i False False) (of_char CHR ''.'' # rs)
       = scanLoop (scanned ps (Suc i) False False) rs"
  by (simp add: scanStep_def scanned_def)

lemma scan_core:
  assumes "list_all isDigit maj" and "list_all isDigit mi" and "list_all isDigit pat"
  shows "scanLoop initState (map of_char (maj @ ''.'' @ mi @ ''.'' @ pat) @ rs)
         = scanLoop (scanned [maj, mi, pat, [], []] 2 False False) rs"
proof -
  have i: "initState = scanned [[], [], [], [], []] 0 False False"
    by (simp add: initState_def scanned_def numeral_eq_Suc)
  have "scanLoop initState (map of_char (maj @ ''.'' @ mi @ ''.'' @ pat) @ rs)
        = scanLoop (scanned [[], [], [], [], []] 0 False False)
            (map of_char maj @ of_char CHR ''.'' # map of_char mi @ of_char CHR ''.''
               # map of_char pat @ rs)"
    by (simp add: i)
  also have "\<dots> = scanLoop (scanned [maj, [], [], [], []] 0 False False)
            (of_char CHR ''.'' # map of_char mi @ of_char CHR ''.'' # map of_char pat @ rs)"
    using scan_digits [OF assms(1), of 0] by simp
  also have "\<dots> = scanLoop (scanned [maj, [], [], [], []] 1 False False)
            (map of_char mi @ of_char CHR ''.'' # map of_char pat @ rs)"
    using scan_dot [of 0] by simp
  also have "\<dots> = scanLoop (scanned [maj, mi, [], [], []] 1 False False)
            (of_char CHR ''.'' # map of_char pat @ rs)"
    using scan_digits [OF assms(2), of 1] by simp
  also have "\<dots> = scanLoop (scanned [maj, mi, [], [], []] 2 False False)
            (map of_char pat @ rs)"
    using scan_dot [of 1] by (simp add: numeral_2_eq_2)
  also have "\<dots> = scanLoop (scanned [maj, mi, pat, [], []] 2 False False) rs"
    using scan_digits [OF assms(3), of 2] by simp
  finally show ?thesis .
qed

lemma Split_not_Nil: "Split t \<noteq> []"
  by (induction t) (auto split: list.splits)

lemma Split_chars:
  "c \<in> set t \<Longrightarrow> c = CHR ''.'' \<or> (\<exists>i\<in>set (Split t). c \<in> set i)"
proof (induction t)
  case Nil
  then show ?case by simp
next
  case (Cons a t)
  obtain p ps where sp: "Split t = p # ps"
    using Split_not_Nil [of t] by (cases "Split t") auto
  show ?case
  proof (cases "a = CHR ''.''")
    case True
    with Cons show ?thesis by auto
  next
    case False
    with Cons sp show ?thesis by auto
  qed
qed

lemma identChar_plain: "identChar c \<Longrightarrow> isAscii c \<and> c \<noteq> CHR ''+'' \<and> c \<noteq> CHR ''.''"
  by (auto simp: identChar_def isDigit_def isAscii_def)

lemma identifiers_chars:
  assumes "identifiers t"
  shows "t \<noteq> [] \<and> list_all (\<lambda>c. isAscii c \<and> c \<noteq> CHR ''+'') t"
proof
  from assms show "t \<noteq> []" by (auto simp: identifiers_def)
next
  have "isAscii c \<and> c \<noteq> CHR ''+''" if "c \<in> set t" for c
  proof (cases "c = CHR ''.''")
    case True
    then show ?thesis by (simp add: isAscii_def)
  next
    case False
    with Split_chars [OF that] obtain i where "i \<in> set (Split t)" "c \<in> set i" by blast
    with assms have "identChar c" by (auto simp: identifiers_def list_all_iff)
    then show ?thesis using identChar_plain by blast
  qed
  then show "list_all (\<lambda>c. isAscii c \<and> c \<noteq> CHR ''+'') t" by (simp add: list_all_iff)
qed

lemma scan_pre:
  assumes "list_all (\<lambda>c. isAscii c \<and> c \<noteq> CHR ''+'') p"
  shows "scanLoop (scanned [maj, mi, pat, [], []] 2 False False) (map of_char (''-'' @ p) @ rs)
         = scanLoop (scanned [maj, mi, pat, p, []] 3 True False) rs"
proof -
  have "list_all (literalIn (scanned [maj, mi, pat, [], []] 3 True False)) p"
    using assms by (auto simp: list_all_iff literalIn_def scanned_def)
  from scanLoop_literals [OF _ this, of rs]
  have "scanLoop (scanned [maj, mi, pat, [], []] 3 True False) (map of_char p @ rs)
         = scanLoop (scanned [maj, mi, pat, p, []] 3 True False) rs"
    by (simp add: scanned_def writeText_def)
  then show ?thesis by (simp add: scanStep_def scanned_def)
qed

lemma scan_build:
  assumes "list_all isAscii b"
  shows "scanLoop (scanned [maj, mi, pat, p, []] i pre False) (map of_char (''+'' @ b) @ rs)
         = scanLoop (scanned [maj, mi, pat, p, b] 4 pre True) rs"
proof -
  have "list_all (literalIn (scanned [maj, mi, pat, p, []] 4 pre True)) b"
    using assms by (auto simp: list_all_iff literalIn_def scanned_def)
  from scanLoop_literals [OF _ this, of rs]
  have "scanLoop (scanned [maj, mi, pat, p, []] 4 pre True) (map of_char b @ rs)
         = scanLoop (scanned [maj, mi, pat, p, b] 4 pre True) rs"
    by (simp add: scanned_def writeText_def)
  then show ?thesis by (simp add: scanStep_def scanned_def)
qed

lemma scan_versionText:
  assumes "list_all isDigit maj" and "list_all isDigit mi" and "list_all isDigit pat"
    and "optIdentifiers pre" and "optIdentifiers build"
  shows "\<exists>st. scan (versionText maj mi pat pre build) = Some st
           \<and> parts st = [maj, mi, pat, optText pre, optText build]"
proof -
  have d: "list_all isAscii t" if "list_all isDigit t" for t
    using that by (auto simp: list_all_iff isDigit_def isAscii_def)
  have a: "list_all isAscii t" "list_all (\<lambda>c. isAscii c \<and> c \<noteq> CHR ''+'') t" if "identifiers t" for t
    using identifiers_chars [OF that] by (auto simp: list_all_iff)
  have dot: "isAscii CHR ''.''" "isAscii CHR ''-''" "isAscii CHR ''+''" by (simp_all add: isAscii_def)
  have asc: "list_all isAscii (versionText maj mi pat pre build)"
    using assms d a dot
    by (auto simp: versionText_def optIdentifiers_def split: option.splits)
  have r: "runes (versionText maj mi pat pre build) = map of_char (versionText maj mi pat pre build)"
    by (rule runes_ascii [OF asc])
  show ?thesis
  proof (cases pre)
    case None
    show ?thesis
    proof (cases build)
      case None
      with \<open>pre = None\<close> scan_core [OF assms(1-3), of "[]"] r show ?thesis
        by (simp add: scan_def versionText_def optText_def scanned_def)
    next
      case (Some b)
      with assms(5) have "list_all isAscii b" by (simp add: optIdentifiers_def a)
      from scan_build [OF this, of maj mi pat "[]" 2 False "[]"]
        scan_core [OF assms(1-3), of "map of_char (''+'' @ b)"] Some \<open>pre = None\<close> r
      show ?thesis
        by (simp add: scan_def versionText_def optText_def scanned_def)
    qed
  next
    case (Some p)
    with assms(4) have p: "list_all (\<lambda>c. isAscii c \<and> c \<noteq> CHR ''+'') p"
      by (simp add: optIdentifiers_def a)
    show ?thesis
    proof (cases build)
      case None
      from scan_pre [OF p, of maj mi pat "[]"]
        scan_core [OF assms(1-3), of "map of_char (''-'' @ p)"] None \<open>pre = Some p\<close> r
      show ?thesis
        by (simp add: scan_def versionText_def optText_def scanned_def)
    next
      case (Some b)
      with assms(5) have "list_all isAscii b" by (simp add: optIdentifiers_def a)
      from scan_build [OF this, of maj mi pat p 3 True "[]"]
        scan_pre [OF p, of maj mi pat "map of_char (''+'' @ b)"]
        scan_core [OF assms(1-3), of "map of_char (''-'' @ p) @ map of_char (''+'' @ b)"]
        Some \<open>pre = Some p\<close> r
      show ?thesis
        by (simp add: scan_def versionText_def optText_def scanned_def)
    qed
  qed
qed

lemma Atoi_canonical: "canonical t \<Longrightarrow> Atoi t = Some (digitsVal t)"
  by (simp add: canonical_def plainNumeral_def Atoi_fieldOk fieldOk_def)

lemma String_semVer:
  "String (semVer a b c p m) =
     formatInt a @ ''.'' @ formatInt b @ ''.'' @ formatInt c
     @ (if p \<noteq> [] then ''-'' @ p else []) @ (if m \<noteq> [] then ''+'' @ m else [])"
  by (simp add: String_def semVer_def)

lemma optText_render:
  "optIdentifiers x \<Longrightarrow>
   (if optText x \<noteq> [] then [c] @ optText x else []) = (case x of None \<Rightarrow> [] | Some t \<Rightarrow> [c] @ t)"
  using identifiers_chars by (auto simp: optText_def optIdentifiers_def split: option.splits)

lemma versionText_parse_render:
  assumes "canonical maj" and "canonical mi" and "canonical pat"
    and "optIdentifiers pre" and "optIdentifiers build"
  shows "\<exists>v. Parse (versionText maj mi pat pre build) = Some (v, None)
           \<and> String v = versionText maj mi pat pre build"
proof -
  from assms(1-3) have d: "list_all isDigit maj" "list_all isDigit mi" "list_all isDigit pat"
    by (simp_all add: canonical_def plainNumeral_def numericText_def)
  from scan_versionText [OF d assms(4,5)] obtain st
    where st: "scan (versionText maj mi pat pre build) = Some st"
      "parts st = [maj, mi, pat, optText pre, optText build]" by blast
  let ?v = "semVer (digitsVal maj) (digitsVal mi) (digitsVal pat) (optText pre) (optText build)"
  have "convert (parts st) = (?v, None)"
    using st(2) assms(1-3) by (simp add: convert_def Atoi_canonical semVer_def)
  with st(1) have p: "Parse (versionText maj mi pat pre build) = Some (?v, None)"
    by (simp add: Parse_def)
  have "String ?v = versionText maj mi pat pre build"
    using optText_render [OF assms(4), of "CHR ''-''"] optText_render [OF assms(5), of "CHR ''+''"]
    by (simp add: String_semVer versionText_def formatInt_canonical assms(1-3))
  with p show ?thesis by blast
qed

text \<open>
  The looseness the specification sets aside: a numeric field with a leading zero
  parses, and \<open>String\<close> prints the number without it.
\<close>

lemma String_drops_leading_zero:
  "Parse ''01.2.3'' = Some (semVer 1 2 3 [] [], None)
   \<and> String (semVer 1 2 3 [] []) = ''1.2.3''"
  by code_simp

text \<open>
  Claim C4, amended. Round trip: for every well-formed input built from the grammar
  (three dot-separated numeric fields without leading zeros, at most one \<open>-\<close>
  introducing a dot-separated pre-release, at most one \<open>+\<close> introducing dot-separated
  build metadata, the identifiers non-empty and made of ASCII letters, digits and
  hyphens) whose three numeric fields have values of at most \<open>2^63 - 1\<close>, \<open>Parse\<close>
  succeeds and \<open>String\<close> of the parsed version is the input, byte for byte.
\<close>

theorem round_trip:
  assumes "plainNumeral maj" and "plainNumeral mi" and "plainNumeral pat"
    and "digitsVal maj \<le> maxInt" and "digitsVal mi \<le> maxInt" and "digitsVal pat \<le> maxInt"
    and "optIdentifiers pre" and "optIdentifiers build"
  shows "\<exists>v. Parse (versionText maj mi pat pre build) = Some (v, None)
           \<and> String v = versionText maj mi pat pre build"
proof -
  from assms(1-6) have "canonical maj" "canonical mi" "canonical pat"
    by (simp_all add: canonical_def)
  then show ?thesis using assms(7,8) by (rule versionText_parse_render)
qed

theorem round_trip_witness:
  "\<exists>v. Parse ''1.0.0-alpha.1+exp.sha.5114f85'' = Some (v, None)
       \<and> String v = ''1.0.0-alpha.1+exp.sha.5114f85''"
proof -
  have c: "plainNumeral ''1''" "plainNumeral ''0''" by code_simp+
  have v: "digitsVal ''1'' \<le> maxInt" "digitsVal ''0'' \<le> maxInt" by code_simp+
  have i: "optIdentifiers (Some ''alpha.1'')" "optIdentifiers (Some ''exp.sha.5114f85'')"
    by code_simp+
  from round_trip [OF c(1) c(2) c(2) v(1) v(2) v(2) i] show ?thesis
    by (simp add: versionText_def)
qed

text \<open>
  The claim as stated, without a bound on the numeric fields, fails: \<open>1.0.9223372036854775808\<close>
  is a well-formed input of the grammar, with no leading zero, and \<open>Parse\<close> returns the
  syntax error, so there is no version to render.
\<close>

theorem round_trip_counterexample:
  "plainNumeral ''1'' \<and> plainNumeral ''0'' \<and> plainNumeral ''9223372036854775808''
   \<and> optIdentifiers None
   \<and> versionText ''1'' ''0'' ''9223372036854775808'' None None = ''1.0.9223372036854775808''
   \<and> Parse ''1.0.9223372036854775808''
       = Some (zeroSemVer\<lparr>Major := 1, Minor := 0\<rparr>, Some ErrInvalidSemVerSyntax)"
  by code_simp

section \<open>Properties of sorting\<close>

declare insertionInner.simps [simp del]
declare insertionOuter.simps [simp del]

lemma Swap_adjacent:
  "Swap (A @ y # x # R) (Suc (length A)) (length A) = A @ x # y # R"
  by (simp add: Swap_def nth_append list_update_append)

lemma insertionInner_sorted:
  assumes ord: "\<And>d i j. set d \<subseteq> S \<Longrightarrow> i < length d \<Longrightarrow> j < length d
                  \<Longrightarrow> lessFn d i j = (k (d ! i) \<le> k (d ! j))"
  shows "set (A @ x # B @ C) \<subseteq> S \<Longrightarrow> sorted (map k (A @ B)) \<Longrightarrow> \<forall>b\<in>set B. k x \<le> k b
    \<Longrightarrow> \<exists>ys. insertionInner lessFn (A @ x # B @ C) 0 (length A) = ys @ C
           \<and> sorted (map k ys) \<and> mset ys = mset (A @ x # B)"
proof (induction A arbitrary: B rule: rev_induct)
  case Nil
  have "insertionInner lessFn (x # B @ C) 0 0 = (x # B) @ C"
    by (subst insertionInner.simps) simp
  moreover from Nil have "sorted (map k (x # B))" by simp
  ultimately show ?case by (intro exI [of _ "x # B"]) simp
next
  case (snoc y A)
  let ?d = "(A @ [y]) @ x # B @ C"
  have lt: "lessFn ?d (Suc (length A)) (length A) = (k x \<le> k y)"
    using ord [of ?d "Suc (length A)" "length A"] snoc.prems(1)
    by (simp add: nth_append)
  show ?case
  proof (cases "k x \<le> k y")
    case True
    have step: "insertionInner lessFn ?d 0 (length (A @ [y]))
          = insertionInner lessFn (A @ x # (y # B) @ C) 0 (length A)"
      using True lt Swap_adjacent [of A y x "B @ C"]
      by (subst insertionInner.simps) simp
    from snoc.prems True
    have "set (A @ x # (y # B) @ C) \<subseteq> S" "sorted (map k (A @ y # B))"
      "\<forall>b\<in>set (y # B). k x \<le> k b" by auto
    from snoc.IH [OF this] step show ?thesis by auto
  next
    case False
    have stop: "insertionInner lessFn ?d 0 (length (A @ [y])) = ((A @ [y]) @ x # B) @ C"
      using False lt by (subst insertionInner.simps) simp
    from snoc.prems(2) have "\<forall>a\<in>set A. k a \<le> k y" "sorted (map k A)" "sorted (map k B)"
      "\<forall>b\<in>set B. k y \<le> k b"
      by (auto simp: sorted_append)
    with False snoc.prems(3) have "sorted (map k ((A @ [y]) @ x # B))"
      by (auto simp: sorted_append intro: order_trans)
    with stop show ?thesis by (intro exI [of _ "(A @ [y]) @ x # B"]) simp
  qed
qed

lemma insertionOuter_sorted:
  assumes ord: "\<And>d i j. set d \<subseteq> S \<Longrightarrow> i < length d \<Longrightarrow> j < length d
                  \<Longrightarrow> lessFn d i j = (k (d ! i) \<le> k (d ! j))"
  shows "set (P @ R) \<subseteq> S \<Longrightarrow> sorted (map k P)
    \<Longrightarrow> sorted (map k (insertionOuter lessFn (P @ R) 0 (length P) (length P + length R)))
        \<and> mset (insertionOuter lessFn (P @ R) 0 (length P) (length P + length R)) = mset (P @ R)"
proof (induction R arbitrary: P)
  case Nil
  have "insertionOuter lessFn P 0 (length P) (length P) = P"
    by (subst insertionOuter.simps) simp
  with Nil show ?case by simp
next
  case (Cons x C)
  from insertionInner_sorted [of S lessFn k P x "[]" C, OF ord] Cons.prems
  obtain ys where ys: "insertionInner lessFn (P @ x # C) 0 (length P) = ys @ C"
    "sorted (map k ys)" "mset ys = mset (P @ [x])" by auto
  from ys(3) have len: "length ys = Suc (length P)"
    using mset_eq_length by fastforce
  from ys(3) have "set ys = set (P @ [x])" by (rule mset_eq_setD)
  with Cons.prems have sub: "set (ys @ C) \<subseteq> S" by auto
  have "insertionOuter lessFn (P @ x # C) 0 (length P) (length P + length (x # C))
        = insertionOuter lessFn (ys @ C) 0 (length ys) (length ys + length C)"
    using ys(1) len by (subst insertionOuter.simps) simp
  with Cons.IH [OF sub ys(2)] ys(3) show ?case by simp
qed

lemma sortSort_sorted:
  assumes ord: "\<And>d i j. set d \<subseteq> S \<Longrightarrow> i < length d \<Longrightarrow> j < length d
                  \<Longrightarrow> lessFn d i j = (k (d ! i) \<le> k (d ! j))"
    and "set data \<subseteq> S" and "length data \<le> 12"
  shows "\<exists>res. sortSort lessFn data = Some res \<and> sorted (map k res) \<and> mset res = mset data"
proof (cases data)
  case Nil
  then show ?thesis by (simp add: sortSort_def)
next
  case (Cons x R)
  show ?thesis
  proof (cases R)
    case Nil
    with Cons show ?thesis by (simp add: sortSort_def)
  next
    case (Cons y R')
    from insertionOuter_sorted [of S lessFn k "[x]" R, OF ord] assms(2) \<open>data = x # R\<close>
    have "sorted (map k (insertionOuter lessFn data 0 1 (length data)))
        \<and> mset (insertionOuter lessFn data 0 1 (length data)) = mset data"
      by simp
    moreover have "sortSort lessFn data = Some (insertionOuter lessFn data 0 1 (length data))"
      using assms(3) Cons \<open>data = x # R\<close> by (simp add: sortSort_def insertionSort_def)
    ultimately show ?thesis by simp
  qed
qed

lemma rank_scenario: "map rank sortScenarioVersions = [0, 1, 2, 3, 4, 5]"
  by code_simp

lemma Less_rank_all:
  "list_all (\<lambda>x. list_all (\<lambda>y. IsLessOrEquql x y = (rank x \<le> rank y)) sortScenarioVersions)
     sortScenarioVersions"
  by code_simp

lemma Less_rank:
  assumes "set d \<subseteq> set sortScenarioVersions" and "i < length d" and "j < length d"
  shows "Less d i j = (rank (d ! i) \<le> rank (d ! j))"
proof -
  from assms have "d ! i \<in> set sortScenarioVersions" "d ! j \<in> set sortScenarioVersions"
    by (auto dest: nth_mem)
  with Less_rank_all show ?thesis
    by (simp add: Less_def list_all_iff)
qed

lemma parse_scenario:
  "map Parse sortScenario = map (\<lambda>v. Some (v, None)) sortScenarioVersions"
  by code_simp

lemma String_scenario: "map String sortScenarioVersions = sortScenario"
  by code_simp

lemma parsed_scenario: "map parsed sortScenario = sortScenarioVersions"
  by code_simp

lemma Parse_parsed_all:
  "list_all (\<lambda>s. Parse s = Some (parsed s, None)) sortScenario"
  by code_simp

lemma Parse_parsed: "s \<in> set sortScenario \<Longrightarrow> Parse s = Some (parsed s, None)"
  using Parse_parsed_all by (simp add: list_all_iff)

lemma parseEach_scenario:
  "set slice \<subseteq> set sortScenario \<Longrightarrow> parseEach slice = Some (Inr (map parsed slice))"
  by (induction slice) (simp_all add: Parse_parsed)

lemma Sort_scenario:
  assumes "mset vs = mset sortScenarioVersions"
  shows "sortSort Less vs = Some sortScenarioVersions"
proof -
  from assms have set: "set vs = set sortScenarioVersions" by (rule mset_eq_setD)
  from assms have "length vs = length sortScenarioVersions" by (rule mset_eq_length)
  then have len: "length vs \<le> 12" by (simp add: sortScenarioVersions_def)
  from sortSort_sorted [of "set sortScenarioVersions" Less rank vs, OF Less_rank] set len
  obtain res where res: "sortSort Less vs = Some res" "sorted (map rank res)"
    "mset res = mset vs" by auto
  have srt: "sorted (map rank sortScenarioVersions)" by (simp add: rank_scenario)
  from res(3) assms have m: "mset (map rank res) = mset (map rank sortScenarioVersions)"
    by simp
  have "map rank res = map rank sortScenarioVersions"
    using properties_for_sort [OF m res(2)] sorted_sort_id [OF srt] by simp
  moreover have "distinct (map rank sortScenarioVersions)" by (simp add: rank_scenario)
  then have "inj_on rank (set sortScenarioVersions)" by (simp add: distinct_map)
  moreover from res(3) assms have "set res = set sortScenarioVersions"
    by (metis mset_eq_setD)
  ultimately have "res = sortScenarioVersions"
    by (simp add: inj_on_map_eq_map)
  with res(1) show ?thesis by simp
qed

text \<open>
  Claim C7. The six strings of the sort scenario parse to the six versions listed with
  them, which \<open>String\<close> renders back; and for every permutation of the six strings,
  every string parses, \<open>Sort\<close> applied to the parsed versions succeeds and returns the
  versions in the scenario's order, and \<open>SortStr\<close> succeeds and leaves the strings in
  the scenario's order, each slot holding the rendering of its parsed version.
\<close>

theorem sort_scenario:
  assumes "mset slice = mset sortScenario"
  shows "map Parse sortScenario = map (\<lambda>v. Some (v, None)) sortScenarioVersions
         \<and> map String sortScenarioVersions = sortScenario
         \<and> (\<exists>vs. map Parse slice = map (\<lambda>v. Some (v, None)) vs
               \<and> Sort vs = Some sortScenarioVersions
               \<and> SortStr slice = Some (sortScenario, None))"
proof -
  from assms have set: "set slice = set sortScenario" by (rule mset_eq_setD)
  have p: "map Parse slice = map (\<lambda>v. Some (v, None)) (map parsed slice)"
    using set by (simp add: Parse_parsed)
  have "mset (map parsed slice) = mset (map parsed sortScenario)"
    using assms by simp
  then have m: "mset (map parsed slice) = mset sortScenarioVersions"
    by (simp only: parsed_scenario)
  have s: "sortSort Less (map parsed slice) = Some sortScenarioVersions"
    by (rule Sort_scenario [OF m])
  have e: "parseEach slice = Some (Inr (map parsed slice))"
    using set by (intro parseEach_scenario) simp
  have "SortStr slice = Some (sortScenario, None)"
    by (simp add: SortStr_def e s String_scenario)
  moreover from s have "Sort (map parsed slice) = Some sortScenarioVersions"
    by (simp add: Sort_def)
  ultimately have "\<exists>vs. map Parse slice = map (\<lambda>v. Some (v, None)) vs
               \<and> Sort vs = Some sortScenarioVersions
               \<and> SortStr slice = Some (sortScenario, None)"
    using p by blast
  with parse_scenario String_scenario show ?thesis by blast
qed

theorem sort_scenario_witness:
  "SortStr [''2.0.0'', ''1.0.0-beta.11'', ''1.0.0'', ''1.0.0-alpha.1'', ''1.0.0-alpha'', ''1.0.0-beta'']
     = Some ([''1.0.0-alpha'', ''1.0.0-alpha.1'', ''1.0.0-beta'', ''1.0.0-beta.11'', ''1.0.0'', ''2.0.0''], None)"
proof -
  have "mset [''2.0.0'', ''1.0.0-beta.11'', ''1.0.0'', ''1.0.0-alpha.1'', ''1.0.0-alpha'', ''1.0.0-beta'']
        = mset sortScenario"
    by (simp add: sortScenario_def)
  from sort_scenario [OF this] show ?thesis unfolding sortScenario_def by blast
qed

end
